theory Spec2Isabelle
  imports Main
begin

section \<open>LinkedIn Ads analytics: request slicing and result merging\<close>

text \<open>
  A shallow embedding of \<^verbatim>\<open>source_linkedin_ads/analytics.py\<close>. Python lists are HOL
  lists, insertion-ordered dicts are association lists, the record objects that the
  merger updates in place live in an explicit store, and every exception the code can
  raise is a value of \<open>error\<close> returned on the left of a sum.
\<close>

subsection \<open>Python values and errors\<close>

datatype error = KeyError | TypeError | ValueError | OverflowError | ParserError

text \<open>
  The values a record or a slice can hold: \<^verbatim>\<open>None\<close>, integers, strings, lists and dicts
  with string keys. Structural equality of \<open>pyval\<close> is Python's \<^verbatim>\<open>==\<close> on these values.
\<close>

datatype pyval =
    VNone
  | VInt int
  | VStr string
  | VList "pyval list"
  | VDict "(string \<times> pyval) list"

type_synonym pydict = "(string \<times> pyval) list"

subsection \<open>Field Chunker\<close>

definition FIELDS_CHUNK_SIZE :: int where
  "FIELDS_CHUNK_SIZE = 17"

definition WINDOW_IN_DAYS :: int where
  "WINDOW_IN_DAYS = 30"

text \<open>The adAnalyticsV2 fields available for fetch.\<close>

definition ANALYTICS_FIELDS_V2 :: "string list" where
  "ANALYTICS_FIELDS_V2 = [
    ''actionClicks'', ''adUnitClicks'', ''approximateUniqueImpressions'', ''cardClicks'',
    ''cardImpressions'', ''clicks'', ''commentLikes'', ''comments'', ''companyPageClicks'',
    ''conversionValueInLocalCurrency'', ''costInLocalCurrency'', ''costInUsd'',
    ''dateRange'', ''externalWebsiteConversions'', ''externalWebsitePostClickConversions'',
    ''externalWebsitePostViewConversions'', ''follows'', ''fullScreenPlays'',
    ''impressions'', ''landingPageClicks'', ''leadGenerationMailContactInfoShares'',
    ''leadGenerationMailInterestedClicks'', ''likes'', ''oneClickLeadFormOpens'',
    ''oneClickLeads'', ''opens'', ''otherEngagements'', ''pivot'', ''pivotValue'',
    ''pivotValues'', ''reactions'', ''sends'', ''shares'', ''textUrlClicks'',
    ''totalEngagements'', ''videoCompletions'', ''videoFirstQuartileCompletions'',
    ''videoMidpointCompletions'', ''videoStarts'', ''videoThirdQuartileCompletions'',
    ''videoViews'', ''viralCardClicks'', ''viralCardImpressions'', ''viralClicks'',
    ''viralCommentLikes'', ''viralComments'', ''viralCompanyPageClicks'',
    ''viralExternalWebsiteConversions'', ''viralExternalWebsitePostClickConversions'',
    ''viralExternalWebsitePostViewConversions'', ''viralFollows'',
    ''viralFullScreenPlays'', ''viralImpressions'', ''viralLandingPageClicks'',
    ''viralLikes'', ''viralOneClickLeadFormOpens'', ''viralOneClickLeads'',
    ''viralOtherEngagements'', ''viralReactions'', ''viralShares'',
    ''viralTotalEngagements'', ''viralVideoCompletions'',
    ''viralVideoFirstQuartileCompletions'', ''viralVideoMidpointCompletions'',
    ''viralVideoStarts'', ''viralVideoThirdQuartileCompletions'', ''viralVideoViews'']"

definition BASE_ANALLYTICS_FIELDS :: "string list" where
  "BASE_ANALLYTICS_FIELDS = [''dateRange'', ''pivot'', ''pivotValue'']"

text \<open>\<^verbatim>\<open>range(f, stop, step)\<close> for a positive step, as the list of its elements.\<close>

function range_from :: "nat \<Rightarrow> nat \<Rightarrow> nat \<Rightarrow> nat list" where
  "range_from f stop step =
     (if 0 < step \<and> f < stop then f # range_from (f + step) stop step else [])"
  by pat_completeness auto
termination
  by (relation "measure (\<lambda>(f, stop, step). stop - f)") auto

text \<open>
  \<^verbatim>\<open>range(0, stop, step)\<close>: a zero step raises \<^verbatim>\<open>ValueError\<close>, a negative step
  counts down from 0 and is empty.
\<close>

definition py_range :: "nat \<Rightarrow> int \<Rightarrow> error + nat list" where
  "py_range stop step =
     (if step = 0 then Inl ValueError
      else if step < 0 then Inr []
      else Inr (range_from 0 stop (nat step)))"

text \<open>\<^verbatim>\<open>xs[lo : hi]\<close> for \<open>0 \<le> lo \<le> hi\<close>; a slice is a fresh list.\<close>

definition py_slice :: "'a list \<Rightarrow> nat \<Rightarrow> nat \<Rightarrow> 'a list" where
  "py_slice xs lo hi = take (hi - lo) (drop lo xs)"

text \<open>The value of \<^verbatim>\<open>chunks\<close> after line 119, before the base fields are added.\<close>

definition raw_chunks :: "string list \<Rightarrow> int \<Rightarrow> error + string list list" where
  "raw_chunks fields fields_chunk_size =
     (case py_range (length fields) fields_chunk_size of
        Inl e \<Rightarrow> Inl e
      | Inr starts \<Rightarrow>
          Inr (map (\<lambda>f. py_slice fields f (f + nat fields_chunk_size)) starts))"

text \<open>The inner loop of lines 122-124 on one chunk.\<close>

definition add_base_fields :: "string list \<Rightarrow> string list \<Rightarrow> string list" where
  "add_base_fields base_fields chunk =
     fold (\<lambda>field chunk. if field \<notin> set chunk then chunk @ [field] else chunk)
       base_fields chunk"

definition chunk_analytics_fields :: "string list \<Rightarrow> int \<Rightarrow> error + string list list" where
  "chunk_analytics_fields fields fields_chunk_size =
     (let base_fields = BASE_ANALLYTICS_FIELDS in
      case raw_chunks fields fields_chunk_size of
        Inl e \<Rightarrow> Inl e
      | Inr chunks \<Rightarrow> Inr (map (add_base_fields base_fields) chunks))"


subsection \<open>Dates and the clock\<close>

text \<open>
  The code works on \<^verbatim>\<open>pendulum\<close> date-times, which are Python \<^verbatim>\<open>datetime\<close> values.
  A \<open>DateTime\<close> is an instant: the number of microseconds since 0001-01-01T00:00:00 UTC.
  Comparison of date-times is comparison of instants, the calendar components are those
  of the proleptic Gregorian ordinal of the day (day 1 is 0001-01-01, the last
  representable day is 9999-12-31), and \<^verbatim>\<open>add(days=n)\<close> raises
  \<^verbatim>\<open>OverflowError\<close> when it leaves the representable range.
\<close>

type_synonym DateTime = int

definition US_PER_DAY :: int where
  "US_PER_DAY = 86400000000"

definition MAXORDINAL :: int where
  "MAXORDINAL = 3652059"

definition toordinal :: "DateTime \<Rightarrow> int" where
  "toordinal t = t div US_PER_DAY + 1"

definition is_leap :: "int \<Rightarrow> bool" where
  "is_leap year \<longleftrightarrow> year mod 4 = 0 \<and> (year mod 100 \<noteq> 0 \<or> year mod 400 = 0)"

definition DAYS_IN_MONTH :: "int list" where
  "DAYS_IN_MONTH = [-1, 31, 28, 31, 30, 31, 30, 31, 31, 30, 31, 30, 31]"

definition DAYS_BEFORE_MONTH :: "int list" where
  "DAYS_BEFORE_MONTH = [-1, 0, 31, 59, 90, 120, 151, 181, 212, 243, 273, 304, 334]"

definition days_before_year :: "int \<Rightarrow> int" where
  "days_before_year year = (let y = year - 1 in y * 365 + y div 4 - y div 100 + y div 400)"

definition days_in_month :: "int \<Rightarrow> int \<Rightarrow> int" where
  "days_in_month year month =
     (if month = 2 \<and> is_leap year then 29 else DAYS_IN_MONTH ! nat month)"

definition days_before_month :: "int \<Rightarrow> int \<Rightarrow> int" where
  "days_before_month year month =
     DAYS_BEFORE_MONTH ! nat month + (if month > 2 \<and> is_leap year then 1 else 0)"

definition ymd2ord :: "int \<Rightarrow> int \<Rightarrow> int \<Rightarrow> int" where
  "ymd2ord year month day = days_before_year year + days_before_month year month + day"

text \<open>Ordinal to (year, month, day), following the standard library's computation.\<close>

definition ord2ymd :: "int \<Rightarrow> int \<times> int \<times> int" where
  "ord2ymd ordinal =
     (let n = ordinal - 1;
          n400 = n div 146097; n = n mod 146097;
          year = n400 * 400 + 1;
          n100 = n div 36524; n = n mod 36524;
          n4 = n div 1461; n = n mod 1461;
          n1 = n div 365; n = n mod 365;
          year = year + n100 * 100 + n4 * 4 + n1
      in if n1 = 4 \<or> n100 = 4 then (year - 1, 12, 31)
         else
           let leapyear = (n1 = 3 \<and> (n4 \<noteq> 24 \<or> n100 = 3));
               month = (n + 50) div 32;
               preceding = DAYS_BEFORE_MONTH ! nat month
                             + (if month > 2 \<and> leapyear then 1 else 0)
           in if preceding > n then
                let month = month - 1;
                    preceding = preceding
                      - (DAYS_IN_MONTH ! nat month + (if month = 2 \<and> leapyear then 1 else 0))
                in (year, month, n - preceding + 1)
              else (year, month, n - preceding + 1))"

definition dt_year :: "DateTime \<Rightarrow> int" where
  "dt_year t = (case ord2ymd (toordinal t) of (y, m, d) \<Rightarrow> y)"

definition dt_month :: "DateTime \<Rightarrow> int" where
  "dt_month t = (case ord2ymd (toordinal t) of (y, m, d) \<Rightarrow> m)"

definition dt_day :: "DateTime \<Rightarrow> int" where
  "dt_day t = (case ord2ymd (toordinal t) of (y, m, d) \<Rightarrow> d)"

text \<open>\<^verbatim>\<open>t.add(days=n)\<close>.\<close>

definition dt_add_days :: "DateTime \<Rightarrow> int \<Rightarrow> error + DateTime" where
  "dt_add_days t days =
     (let t' = t + days * US_PER_DAY
      in if 1 \<le> toordinal t' \<and> toordinal t' \<le> MAXORDINAL then Inr t'
         else Inl OverflowError)"

text \<open>
  \<^verbatim>\<open>pendulum.parse\<close> on the calendar-date form \<^verbatim>\<open>YYYY-MM-DD\<close>: midnight UTC of that
  day. The other forms the library accepts are not modelled, which is why
  \<open>make_date_slices\<close> below takes the parser as a parameter: what is proved for every
  parser holds for the library's.
\<close>

definition digits_val :: "string \<Rightarrow> int option" where
  "digits_val s =
     (if s \<noteq> [] \<and> (\<forall>c \<in> set s. c \<in> set ''0123456789'')
      then Some (foldl (\<lambda>a c. 10 * a + (of_char c - 48)) 0 s)
      else None)"

definition pdm_parse :: "string \<Rightarrow> error + DateTime" where
  "pdm_parse s =
     (if length s = 10 \<and> s ! 4 = CHR ''-'' \<and> s ! 7 = CHR ''-'' then
        (case (digits_val (take 4 s), digits_val (take 2 (drop 5 s)), digits_val (drop 8 s)) of
           (Some year, Some month, Some day) \<Rightarrow>
             if 1 \<le> year \<and> 1 \<le> month \<and> month \<le> 12 \<and> 1 \<le> day
                \<and> day \<le> days_in_month year month
             then Inr ((ymd2ord year month day - 1) * US_PER_DAY)
             else Inl ParserError
         | _ \<Rightarrow> Inl ParserError)
      else Inl ParserError)"

subsection \<open>Dicts\<close>

text \<open>
  A Python dict keeps its keys in insertion order: an association list with distinct
  keys. \<open>dict_set\<close> is \<^verbatim>\<open>d[k] = v\<close> (an existing key keeps its position, a new key
  goes to the end) and \<open>dict_update\<close> is \<^verbatim>\<open>d.update(other)\<close>: for every key \<open>k\<close> of
  \<open>other\<close>, in the order of \<open>other\<close>, \<^verbatim>\<open>d[k] = other[k]\<close>.
\<close>

definition dict_get :: "('k \<times> 'v) list \<Rightarrow> 'k \<Rightarrow> 'v option" where
  "dict_get d k = map_of d k"

definition dict_keys :: "('k \<times> 'v) list \<Rightarrow> 'k list" where
  "dict_keys d = map fst d"

fun dict_set :: "('k \<times> 'v) list \<Rightarrow> 'k \<Rightarrow> 'v \<Rightarrow> ('k \<times> 'v) list" where
  "dict_set [] k v = [(k, v)]"
| "dict_set ((k', v') # d) k v =
     (if k' = k then (k, v) # d else (k', v') # dict_set d k v)"

definition dict_update :: "('k \<times> 'v) list \<Rightarrow> ('k \<times> 'v) list \<Rightarrow> ('k \<times> 'v) list" where
  "dict_update d other =
     fold (\<lambda>k d. case dict_get other k of Some v \<Rightarrow> dict_set d k v | None \<Rightarrow> d)
       (dict_keys other) d"

text \<open>\<^verbatim>\<open>v[k]\<close> for a string \<open>k\<close>: only a dict can be subscripted by a string.\<close>

definition subscript :: "pyval \<Rightarrow> string \<Rightarrow> error + pyval" where
  "subscript v k =
     (case v of
        VDict d \<Rightarrow> (case dict_get d k of Some x \<Rightarrow> Inr x | None \<Rightarrow> Inl KeyError)
      | _ \<Rightarrow> Inl TypeError)"

text \<open>Only hashable values can be keys of a dict; lists and dicts are not hashable.\<close>

fun hashable :: "pyval \<Rightarrow> bool" where
  "hashable VNone = True"
| "hashable (VInt i) = True"
| "hashable (VStr s) = True"
| "hashable (VList xs) = False"
| "hashable (VDict d) = False"

subsection \<open>Date Windower\<close>

definition date_slice_of :: "DateTime \<Rightarrow> DateTime \<Rightarrow> pydict" where
  "date_slice_of start slice_end_date =
     [(''start.day'', VInt (dt_day start)),
      (''start.month'', VInt (dt_month start)),
      (''start.year'', VInt (dt_year start)),
      (''end.day'', VInt (dt_day slice_end_date)),
      (''end.month'', VInt (dt_month slice_end_date)),
      (''end.year'', VInt (dt_year slice_end_date))]"

text \<open>
  The loop of lines 135-146, with the loop variables \<^verbatim>\<open>start\<close> and \<^verbatim>\<open>date_slices\<close> as
  arguments. The loop need not terminate: \<open>None\<close> is a run that never returns.
\<close>

partial_function (option) date_slices_loop ::
  "DateTime \<Rightarrow> int \<Rightarrow> DateTime \<Rightarrow> pydict list \<Rightarrow> (error + pydict list) option" where
  "date_slices_loop start window_in_days end_dt date_slices =
     (if start < end_dt then
        (case dt_add_days start window_in_days of
           Inl e \<Rightarrow> Some (Inl e)
         | Inr slice_end_date \<Rightarrow>
             date_slices_loop
               (if slice_end_date \<le> end_dt then slice_end_date else end_dt)
               window_in_days end_dt
               (date_slices @ [[(''dateRange'', VDict (date_slice_of start slice_end_date))]]))
      else Some (Inr date_slices))"

declare date_slices_loop.simps [code]

text \<open>
  \<open>parse\<close> is \<^verbatim>\<open>pendulum.parse\<close> and \<open>now\<close> is the reading of \<^verbatim>\<open>pendulum.now()\<close>.
  An \<open>end_date\<close> that is \<^verbatim>\<open>None\<close> or the empty string is falsy.
\<close>

definition make_date_slices ::
  "(string \<Rightarrow> error + DateTime) \<Rightarrow> DateTime \<Rightarrow> string \<Rightarrow> int \<Rightarrow> string option
     \<Rightarrow> (error + pydict list) option" where
  "make_date_slices parse now start_date window_in_days end_date =
     (case parse start_date of
        Inl e \<Rightarrow> Some (Inl e)
      | Inr start \<Rightarrow>
          (case (case end_date of
                   None \<Rightarrow> Inr now
                 | Some s \<Rightarrow> if s \<noteq> [] then parse s else Inr now) of
             Inl e \<Rightarrow> Some (Inl e)
           | Inr end_dt \<Rightarrow> date_slices_loop start window_in_days end_dt []))"

subsection \<open>Slice Builder\<close>

text \<open>\<^verbatim>\<open>sep.join(xs)\<close>.\<close>

fun py_join :: "string \<Rightarrow> string list \<Rightarrow> string" where
  "py_join sep [] = []"
| "py_join sep [x] = x"
| "py_join sep (x # y # ys) = x @ sep @ py_join sep (y # ys)"

text \<open>
  The inner loop of lines 161-163: each date slice is written into \<^verbatim>\<open>base_slice\<close>
  and a copy of \<^verbatim>\<open>base_slice\<close> is appended to the result.
\<close>

fun add_date_slices :: "pydict \<Rightarrow> pydict list \<Rightarrow> pydict list \<Rightarrow> pydict \<times> pydict list" where
  "add_date_slices base_slice analytics_slices [] = (base_slice, analytics_slices)"
| "add_date_slices base_slice analytics_slices (date_slice # rest) =
     (let base_slice = dict_update base_slice date_slice
      in add_date_slices base_slice (analytics_slices @ [base_slice]) rest)"

text \<open>
  The outer loop of lines 159-163. \<^verbatim>\<open>make_date_slices(start_date)\<close> is called once for
  every field chunk and reads the clock each time: \<open>clock i\<close> is the reading of the
  \<open>i\<close>-th call.
\<close>

fun analytics_slices_loop ::
  "(string \<Rightarrow> error + DateTime) \<Rightarrow> (nat \<Rightarrow> DateTime) \<Rightarrow> string \<Rightarrow> nat \<Rightarrow> pydict
     \<Rightarrow> pydict list \<Rightarrow> string list list \<Rightarrow> (error + pydict list) option" where
  "analytics_slices_loop parse clock start_date i base_slice analytics_slices [] =
     Some (Inr analytics_slices)"
| "analytics_slices_loop parse clock start_date i base_slice analytics_slices
     (fields_set # rest) =
     (let base_slice = dict_set base_slice ''fields'' (VStr (py_join '','' fields_set))
      in case make_date_slices parse (clock i) start_date WINDOW_IN_DAYS None of
           None \<Rightarrow> None
         | Some (Inl e) \<Rightarrow> Some (Inl e)
         | Some (Inr date_slices) \<Rightarrow>
             (case add_date_slices base_slice analytics_slices date_slices of
                (base_slice, analytics_slices) \<Rightarrow>
                  analytics_slices_loop parse clock start_date (Suc i) base_slice
                    analytics_slices rest))"

text \<open>
  \<^verbatim>\<open>make_slice\<close> comes from the connector's \<^verbatim>\<open>utils\<close> module and is a parameter here:
  it returns the base slice or raises.
\<close>

definition make_analytics_slices ::
  "('r \<Rightarrow> 'm \<Rightarrow> error + pydict) \<Rightarrow> (string \<Rightarrow> error + DateTime) \<Rightarrow> (nat \<Rightarrow> DateTime)
     \<Rightarrow> 'r \<Rightarrow> 'm \<Rightarrow> string \<Rightarrow> (error + pydict list) option" where
  "make_analytics_slices make_slice parse clock records key_value_map start_date =
     (case make_slice records key_value_map of
        Inl e \<Rightarrow> Some (Inl e)
      | Inr base_slice \<Rightarrow>
          (case chunk_analytics_fields ANALYTICS_FIELDS_V2 FIELDS_CHUNK_SIZE of
             Inl e \<Rightarrow> Some (Inl e)
           | Inr chunks \<Rightarrow>
               analytics_slices_loop parse clock start_date 0 base_slice [] chunks))"

text \<open>
  The slice for one field chunk and one date window as section 9 of the design builds it:
  a fresh value made of the base context, the joined chunk and the window.
\<close>

definition fresh_slice :: "pydict \<Rightarrow> string list \<Rightarrow> pydict \<Rightarrow> pydict" where
  "fresh_slice base_slice fields_set date_slice =
     dict_update (dict_set base_slice ''fields'' (VStr (py_join '','' fields_set))) date_slice"

subsection \<open>Param Flattener\<close>

text \<open>\<^verbatim>\<open>stream_slice[k1][k2]\<close>.\<close>

definition subscript2 :: "pydict \<Rightarrow> string \<Rightarrow> string \<Rightarrow> error + pyval" where
  "subscript2 stream_slice k1 k2 =
     (case dict_get stream_slice k1 of
        None \<Rightarrow> Inl KeyError
      | Some v \<Rightarrow> subscript v k2)"

text \<open>The entries of the returned dict are evaluated in the order they are written.\<close>

definition update_analytics_params :: "pydict \<Rightarrow> error + pydict" where
  "update_analytics_params stream_slice =
     (case subscript2 stream_slice ''dateRange'' ''start.day'' of Inl e \<Rightarrow> Inl e | Inr sd \<Rightarrow>
      case subscript2 stream_slice ''dateRange'' ''start.month'' of Inl e \<Rightarrow> Inl e | Inr sm \<Rightarrow>
      case subscript2 stream_slice ''dateRange'' ''start.year'' of Inl e \<Rightarrow> Inl e | Inr sy \<Rightarrow>
      case subscript2 stream_slice ''dateRange'' ''end.day'' of Inl e \<Rightarrow> Inl e | Inr ed \<Rightarrow>
      case subscript2 stream_slice ''dateRange'' ''end.month'' of Inl e \<Rightarrow> Inl e | Inr em \<Rightarrow>
      case subscript2 stream_slice ''dateRange'' ''end.year'' of Inl e \<Rightarrow> Inl e | Inr ey \<Rightarrow>
      case dict_get stream_slice ''fields'' of None \<Rightarrow> Inl KeyError | Some fields \<Rightarrow>
        Inr [(''dateRange.start.day'', sd),
             (''dateRange.start.month'', sm),
             (''dateRange.start.year'', sy),
             (''dateRange.end.day'', ed),
             (''dateRange.end.month'', em),
             (''dateRange.end.year'', ey),
             (''fields'', fields)])"

subsection \<open>Result Merger\<close>

text \<open>
  The records are Python objects, and the code stores references to them and updates
  them in place. A \<open>store\<close> maps the address of a record object to its current contents,
  the input collections hold addresses, and the run returns the list of addresses it
  built together with the store it leaves behind.
\<close>

type_synonym addr = nat

type_synonym store = "addr \<Rightarrow> pydict"

text \<open>
  The body of the inner loop, lines 193-197, on the record object \<^verbatim>\<open>key\<close>: \<open>merged\<close>
  maps a merge-key value to the record object accumulated for it. A record without the
  merge key raises \<^verbatim>\<open>KeyError\<close> at line 193, a merge-key value that is not hashable
  raises \<^verbatim>\<open>TypeError\<close> at line 194. Line 195 updates the accumulated object in place,
  line 197 stores the object \<^verbatim>\<open>key\<close> itself, not a copy.
\<close>

definition merge_record ::
  "string \<Rightarrow> (pyval \<times> addr) list \<times> store \<Rightarrow> addr
     \<Rightarrow> error + (pyval \<times> addr) list \<times> store" where
  "merge_record merge_by_key state key =
     (case state of
        (merged, store) \<Rightarrow>
          (case dict_get (store key) merge_by_key of
             None \<Rightarrow> Inl KeyError
           | Some head_key \<Rightarrow>
               if \<not> hashable head_key then Inl TypeError
               else (case dict_get merged head_key of
                       Some acc \<Rightarrow>
                         Inr (merged, store(acc := dict_update (store acc) (store key)))
                     | None \<Rightarrow> Inr (dict_set merged head_key key, store))))"

fun merge_chunk ::
  "string \<Rightarrow> (pyval \<times> addr) list \<times> store \<Rightarrow> addr list
     \<Rightarrow> error + (pyval \<times> addr) list \<times> store" where
  "merge_chunk merge_by_key state [] = Inr state"
| "merge_chunk merge_by_key state (key # chunk) =
     (case merge_record merge_by_key state key of
        Inl e \<Rightarrow> Inl e
      | Inr state \<Rightarrow> merge_chunk merge_by_key state chunk)"

fun merge_loop ::
  "string \<Rightarrow> (pyval \<times> addr) list \<times> store \<Rightarrow> addr list list
     \<Rightarrow> error + (pyval \<times> addr) list \<times> store" where
  "merge_loop merge_by_key state [] = Inr state"
| "merge_loop merge_by_key state (chunk # chunked_result) =
     (case merge_chunk merge_by_key state chunk of
        Inl e \<Rightarrow> Inl e
      | Inr state \<Rightarrow> merge_loop merge_by_key state chunked_result)"

text \<open>
  The result holds \<^verbatim>\<open>merged.get(key)\<close> for every key of \<^verbatim>\<open>merged\<close>, in the dict's order;
  \<open>None\<close> is what \<^verbatim>\<open>get\<close> returns for a key that is absent. The first argument is the
  store at the time of the call.
\<close>

definition merge_chunks ::
  "store \<Rightarrow> addr list list \<Rightarrow> string \<Rightarrow> error + addr option list \<times> store" where
  "merge_chunks store chunked_result merge_by_key =
     (case merge_loop merge_by_key ([], store) chunked_result of
        Inl e \<Rightarrow> Inl e
      | Inr (merged, store) \<Rightarrow>
          Inr (map (\<lambda>key. dict_get merged key) (dict_keys merged), store))"

text \<open>What the caller reads in the returned list: the contents of the objects it holds.\<close>

definition read_result :: "addr option list \<times> store \<Rightarrow> pydict option list" where
  "read_result returned = (case returned of (result, store) \<Rightarrow> map (map_option store) result)"

subsection \<open>The Result Merger as section 4.5 of the design describes it\<close>







section \<open>Properties of the Field Chunker\<close>

lemma ceil_div_step:
  assumes "0 < step" "f < stop"
  shows "(stop - f + step - 1) div step = Suc ((stop - (f + step) + step - 1) div step)"
proof (cases "f + step \<le> stop")
  case True
  define X where "X = stop - (f + step) + step - 1"
  have e: "stop - f + step - 1 = X + step"
    using True assms by (simp add: X_def)
  have "(X + step) div step = Suc (X div step)" using assms div_add_self2[of step X] by auto
  then show ?thesis unfolding X_def[symmetric] e .
next
  case False
  then have a: "stop - (f + step) = 0" by simp
  have b: "step \<le> stop - f + step - 1" "stop - f + step - 1 < 2 * step"
    using assms False by simp_all
  have "(stop - f + step - 1) div step = 1"
    using b assms
    by (metis Suc_1 div_nat_eqI mult.commute nat_mult_1_right plus_1_eq_Suc)
  then show ?thesis using a assms by simp
qed

lemma range_from_map: "0 < step \<Longrightarrow> range_from f stop step = map (\<lambda>i. f + i * step) [0 ..< (stop - f + step - 1) div step]"
proof (induction f stop step rule: range_from.induct)
  case (1 f stop step)
  show ?case
  proof (cases "f < stop")
    case False
    then have "(stop - f + step - 1) div step = 0" using 1(2) by simp
    then show ?thesis using False by simp
  next
    case True
    let ?k = "(stop - (f + step) + step - 1) div step"
    have k: "(stop - f + step - 1) div step = Suc ?k"
      using ceil_div_step[OF 1(2) True] .
    have "range_from f stop step = f # range_from (f + step) stop step"
      using True 1(2) by simp
    also have "range_from (f + step) stop step = map (\<lambda>i. f + step + i * step) [0 ..< ?k]"
      using 1 True by simp
    also have "f # map (\<lambda>i. f + step + i * step) [0 ..< ?k] = map (\<lambda>i. f + i * step) [0 ..< Suc ?k]"
      by (simp add: map_upt_Suc del: upt_Suc)
    finally show ?thesis using k by simp
  qed
qed

lemma add_base_fields_eq: "distinct bs \<Longrightarrow> add_base_fields bs c = c @ filter (\<lambda>b. b \<notin> set c) bs"
  unfolding add_base_fields_def
proof (induction bs arbitrary: c)
  case Nil then show ?case by simp
next
  case (Cons b bs)
  show ?case
  proof (cases "b \<in> set c")
    case True
    then show ?thesis using Cons by simp
  next
    case False
    have "filter (\<lambda>x. x \<notin> set (c @ [b])) bs = filter (\<lambda>x. x \<notin> set c) bs"
      using Cons.prems by (intro filter_cong) auto
    then show ?thesis using False Cons by simp
  qed
qed

lemma concat_slices: "0 < n \<Longrightarrow> concat (map (\<lambda>f. py_slice xs f (f + n)) (range_from f (length xs) n)) = drop f xs"
proof (induction f "length xs" n rule: range_from.induct)
  case (1 f step)
  show ?case
  proof (cases "f < length xs")
    case True
    have r: "range_from f (length xs) step = f # range_from (f + step) (length xs) step"
      using True 1(2) by simp
    have "drop (f + step) xs = drop step (drop f xs)" by (simp add: add.commute)
    moreover have "concat (map (\<lambda>f. py_slice xs f (f + step)) (range_from (f + step) (length xs) step)) = drop (f + step) xs"
      using 1 True by simp
    ultimately show ?thesis unfolding r by (simp add: py_slice_def del: drop_drop)
  next
    case False then show ?thesis by simp
  qed
qed


lemma lt_ceil_div_iff: "0 < n \<Longrightarrow> i < (len + n - 1) div n \<longleftrightarrow> i * n < len" for i n len :: nat
proof -
  assume n: "0 < n"
  have "i < (len + n - 1) div n \<longleftrightarrow> Suc i \<le> (len + n - 1) div n" by auto
  also have "\<dots> \<longleftrightarrow> Suc i * n \<le> len + n - 1"
    using n by (simp only: less_eq_div_iff_mult_less_eq)
  also have "\<dots> \<longleftrightarrow> i * n < len" using n by auto
  finally show ?thesis .
qed

lemma raw_chunks_closed:
  assumes "0 < M"
  shows "raw_chunks C M = Inr (map (\<lambda>i. take (nat M) (drop (i * nat M) C)) [0 ..< (length C + nat M - 1) div nat M])"
proof -
  have "0 < nat M" using assms by simp
  then have "range_from 0 (length C) (nat M) = map (\<lambda>i. i * nat M) [0 ..< (length C + nat M - 1) div nat M]"
    using range_from_map[of "nat M" 0 "length C"] by simp
  then show ?thesis using assms
    by (simp add: raw_chunks_def py_range_def py_slice_def comp_def)
qed

lemma raw_chunks_concat:
  assumes "0 < M" "raw_chunks C M = Inr raw"
  shows "concat raw = C"
proof -
  have "0 < nat M" using assms by simp
  from concat_slices[OF this, of C 0] assms show ?thesis
    by (auto simp: raw_chunks_def py_range_def)
qed

lemma distinct_BASE: "distinct BASE_ANALLYTICS_FIELDS"
  by (simp add: BASE_ANALLYTICS_FIELDS_def)

text \<open>
  C3: for every field list and every chunk size greater than 0, every chunk returned by
  \<open>chunk_analytics_fields\<close> contains every base field, and a chunk is its raw slice
  followed by the base fields the raw slice lacks, in the order of the base-field list.
\<close>

theorem chunks_contain_base_fields:
  assumes "0 < M"
  shows "\<exists>raw chunks.
           raw_chunks F M = Inr raw \<and> chunk_analytics_fields F M = Inr chunks \<and>
           length chunks = length raw \<and>
           (\<forall>c \<in> set chunks. set BASE_ANALLYTICS_FIELDS \<subseteq> set c) \<and>
           (\<forall>i < length chunks.
              chunks ! i = raw ! i @ filter (\<lambda>b. b \<notin> set (raw ! i)) BASE_ANALLYTICS_FIELDS)"
proof -
  obtain raw where raw: "raw_chunks F M = Inr raw"
    using raw_chunks_closed[OF assms] by blast
  let ?chunks = "map (add_base_fields BASE_ANALLYTICS_FIELDS) raw"
  have res: "chunk_analytics_fields F M = Inr ?chunks"
    using raw by (simp add: chunk_analytics_fields_def)
  have aug: "add_base_fields BASE_ANALLYTICS_FIELDS r = r @ filter (\<lambda>b. b \<notin> set r) BASE_ANALLYTICS_FIELDS" for r
    by (rule add_base_fields_eq[OF distinct_BASE])
  have "set BASE_ANALLYTICS_FIELDS \<subseteq> set c" if "c \<in> set ?chunks" for c
  proof -
    from that obtain r where "c = r @ filter (\<lambda>b. b \<notin> set r) BASE_ANALLYTICS_FIELDS"
      using aug by auto
    then show ?thesis by auto
  qed
  moreover have "?chunks ! i = raw ! i @ filter (\<lambda>b. b \<notin> set (raw ! i)) BASE_ANALLYTICS_FIELDS"
    if "i < length ?chunks" for i
    using that aug by simp
  ultimately show ?thesis using raw res by (intro exI[of _ raw] exI[of _ ?chunks]) simp
qed

text \<open>
  C4: for every field catalog \<open>C\<close> and every chunk size \<open>M\<close> greater than 0, the chunks
  before the base fields are added are the consecutive \<open>M\<close>-sized slices of \<open>C\<close>, the
  last one possibly shorter: the field at position \<open>j\<close> of \<open>C\<close> sits at position
  \<open>j mod M\<close> of chunk \<open>j div M\<close>, each returned chunk starts with its raw slice, and the
  concatenation of the raw slices is \<open>C\<close>.
\<close>

theorem chunks_are_consecutive_slices:
  assumes "0 < M"
  shows "\<exists>raw chunks.
           raw_chunks C M = Inr raw \<and> chunk_analytics_fields C M = Inr chunks \<and>
           length chunks = length raw \<and>
           length raw = (length C + nat M - 1) div nat M \<and>
           (\<forall>i < length raw.
              raw ! i = take (nat M) (drop (i * nat M) C) \<and> raw ! i \<noteq> [] \<and>
              take (length (raw ! i)) (chunks ! i) = raw ! i) \<and>
           (\<forall>i. Suc i < length raw \<longrightarrow> length (raw ! i) = nat M) \<and>
           (\<forall>j < length C. raw ! (j div nat M) ! (j mod nat M) = C ! j) \<and>
           concat raw = C"
proof -
  let ?n = "nat M"
  let ?k = "(length C + ?n - 1) div ?n"
  let ?raw = "map (\<lambda>i. take ?n (drop (i * ?n) C)) [0 ..< ?k]"
  let ?chunks = "map (add_base_fields BASE_ANALLYTICS_FIELDS) ?raw"
  have n: "0 < ?n" using assms by simp
  have raw: "raw_chunks C M = Inr ?raw" by (rule raw_chunks_closed[OF assms])
  have res: "chunk_analytics_fields C M = Inr ?chunks"
    using raw by (simp add: chunk_analytics_fields_def)
  have len: "length ?raw = ?k" by simp
  have nth: "?raw ! i = take ?n (drop (i * ?n) C)" if "i < ?k" for i
    using that by simp
  have ne: "?raw ! i \<noteq> []" if "i < ?k" for i
  proof -
    have "i * ?n < length C" using that lt_ceil_div_iff[OF n] by simp
    then show ?thesis using nth[OF that] n by simp
  qed
  have pre: "take (length (?raw ! i)) (?chunks ! i) = ?raw ! i" if "i < ?k" for i
  proof -
    have "?chunks ! i = ?raw ! i @ filter (\<lambda>b. b \<notin> set (?raw ! i)) BASE_ANALLYTICS_FIELDS"
      using that add_base_fields_eq[OF distinct_BASE] by (simp del: upt_Suc)
    then show ?thesis by simp
  qed
  have full: "length (?raw ! i) = ?n" if "Suc i < ?k" for i
  proof -
    have "Suc i * ?n < length C" using that lt_ceil_div_iff[OF n] by simp
    moreover have "i < ?k" using that by simp
    ultimately show ?thesis using nth[of i] by simp
  qed
  have pos: "?raw ! (j div ?n) ! (j mod ?n) = C ! j" if "j < length C" for j
  proof -
    have "(j div ?n) * ?n \<le> j" by simp
    then have le: "(j div ?n) * ?n < length C" using that by linarith
    then have lt: "j div ?n < ?k" using lt_ceil_div_iff[OF n] by simp
    have "j mod ?n < ?n" using n by simp
    then have "?raw ! (j div ?n) ! (j mod ?n) = drop ((j div ?n) * ?n) C ! (j mod ?n)"
      using nth[OF lt] by simp
    also have "\<dots> = C ! ((j div ?n) * ?n + j mod ?n)"
      using le by (intro nth_drop) simp
    finally show ?thesis by simp
  qed
  have cc: "concat ?raw = C" by (rule raw_chunks_concat[OF assms raw])
  have lenc: "length ?chunks = length ?raw" by simp
  have a: "\<forall>i < length ?raw.
              ?raw ! i = take ?n (drop (i * ?n) C) \<and> ?raw ! i \<noteq> [] \<and>
              take (length (?raw ! i)) (?chunks ! i) = ?raw ! i"
  proof (intro allI impI conjI)
    fix i assume "i < length ?raw"
    then have i: "i < ?k" by simp
    show "?raw ! i = take ?n (drop (i * ?n) C)" by (rule nth[OF i])
    show "?raw ! i \<noteq> []" by (rule ne[OF i])
    show "take (length (?raw ! i)) (?chunks ! i) = ?raw ! i" by (rule pre[OF i])
  qed
  have b: "\<forall>i. Suc i < length ?raw \<longrightarrow> length (?raw ! i) = ?n"
  proof (intro allI impI)
    fix i assume "Suc i < length ?raw"
    then have "Suc i < ?k" by simp
    then show "length (?raw ! i) = ?n" by (rule full)
  qed
  have c: "\<forall>j < length C. ?raw ! (j div ?n) ! (j mod ?n) = C ! j"
    by (intro allI impI) (rule pos)
  show ?thesis
    apply (rule exI[of _ ?raw], rule exI[of _ ?chunks])
    apply (intro conjI)
           apply (rule raw)
          apply (rule res)
         apply (rule lenc)
        apply (rule len)
       apply (rule a)
      apply (rule b)
     apply (rule c)
    apply (rule cc)
    done
qed


text \<open>The chunker on three fields with chunk size 2.\<close>

theorem chunks_contain_base_fields_witness:
  "(0::int) < 2 \<and>
   chunk_analytics_fields [''clicks'', ''pivot'', ''likes''] 2 =
     Inr [[''clicks'', ''pivot'', ''dateRange'', ''pivotValue''],
          [''likes'', ''dateRange'', ''pivot'', ''pivotValue'']] \<and>
   set BASE_ANALLYTICS_FIELDS \<subseteq> set [''clicks'', ''pivot'', ''dateRange'', ''pivotValue''] \<and>
   set BASE_ANALLYTICS_FIELDS \<subseteq> set [''likes'', ''dateRange'', ''pivot'', ''pivotValue'']"
proof -
  let ?F = "[''clicks'', ''pivot'', ''likes'']"
  let ?X = "[[''clicks'', ''pivot'', ''dateRange'', ''pivotValue''],
             [''likes'', ''dateRange'', ''pivot'', ''pivotValue'']]"
  have h: "(0::int) < 2" by simp
  have ev: "chunk_analytics_fields ?F 2 = Inr ?X" by code_simp
  from chunks_contain_base_fields[OF h, of ?F] obtain chunks where
    "chunk_analytics_fields ?F 2 = Inr chunks"
    "\<forall>c \<in> set chunks. set BASE_ANALLYTICS_FIELDS \<subseteq> set c"
    by blast
  with ev have "\<forall>c \<in> set ?X. set BASE_ANALLYTICS_FIELDS \<subseteq> set c" by simp
  then have
    "set BASE_ANALLYTICS_FIELDS \<subseteq> set [''clicks'', ''pivot'', ''dateRange'', ''pivotValue'']"
    "set BASE_ANALLYTICS_FIELDS \<subseteq> set [''likes'', ''dateRange'', ''pivot'', ''pivotValue'']"
    by simp_all
  with h ev show ?thesis by blast
qed

text \<open>The raw slices of three fields with chunk size 2.\<close>

theorem chunks_are_consecutive_slices_witness:
  "(0::int) < 2 \<and>
   raw_chunks [''clicks'', ''pivot'', ''likes''] 2 = Inr [[''clicks'', ''pivot''], [''likes'']] \<and>
   concat [[''clicks'', ''pivot''], [''likes'']] = [''clicks'', ''pivot'', ''likes'']"
proof -
  let ?C = "[''clicks'', ''pivot'', ''likes'']"
  have h: "(0::int) < 2" by simp
  have ev: "raw_chunks ?C 2 = Inr [[''clicks'', ''pivot''], [''likes'']]" by code_simp
  from chunks_are_consecutive_slices[OF h, of ?C] obtain raw where
    "raw_chunks ?C 2 = Inr raw" "concat raw = ?C"
    by blast
  with ev have "concat [[''clicks'', ''pivot''], [''likes'']] = ?C" by simp
  with h ev show ?thesis by blast
qed
section \<open>Properties of the Date Windower\<close>

lemma US_PER_DAY_pos: "0 < US_PER_DAY"
  by (simp add: US_PER_DAY_def)

lemma dt_add_days_Inr: "dt_add_days t d = Inr t' \<Longrightarrow> t' = t + d * US_PER_DAY"
  by (auto simp: dt_add_days_def Let_def split: if_splits)

lemma dt_add_days_Inl: "dt_add_days t d = Inl e \<Longrightarrow> e = OverflowError"
  by (auto simp: dt_add_days_def Let_def split: if_splits)

lemma cursor_increases:
  assumes "0 < w" "start < end_dt" "dt_add_days start w = Inr se"
  shows "start < (if se \<le> end_dt then se else end_dt)"
proof -
  have "0 < w * US_PER_DAY" using assms(1) US_PER_DAY_pos by simp
  then have "start < se" using dt_add_days_Inr[OF assms(3)] by simp
  then show ?thesis using assms(2) by simp
qed

lemma date_slices_loop_returns:
  assumes "0 < w"
  shows "\<exists>r. date_slices_loop s w e acc = Some r \<and> (r = Inl OverflowError \<or> (\<exists>ws. r = Inr ws))"
proof (induction "nat (e - s)" arbitrary: s acc rule: less_induct)
  case less
  show ?case
  proof (cases "s < e")
    case False
    then show ?thesis by (subst date_slices_loop.simps) simp
  next
    case True
    show ?thesis
    proof (cases "dt_add_days s w")
      case (Inl err)
      then show ?thesis using True dt_add_days_Inl[OF Inl]
        by (subst date_slices_loop.simps) simp
    next
      case (Inr se)
      let ?c = "if se \<le> e then se else e"
      have "s < ?c" by (rule cursor_increases[OF assms True Inr])
      then have "nat (e - ?c) < nat (e - s)" using True by auto
      from less[OF this] show ?thesis using True Inr
        by (subst date_slices_loop.simps) simp
    qed
  qed
qed

lemma toordinal_mono: "a \<le> b \<Longrightarrow> toordinal a \<le> toordinal b"
  unfolding toordinal_def using US_PER_DAY_pos by (simp add: zdiv_mono1)

lemma toordinal_ge1: "0 \<le> a \<Longrightarrow> 1 \<le> toordinal a"
  unfolding toordinal_def using US_PER_DAY_pos by (simp add: pos_imp_zdiv_nonneg_iff)

lemma date_slices_loop_in_range:
  assumes "0 < w" "toordinal (e + w * US_PER_DAY) \<le> MAXORDINAL"
  shows "0 \<le> s \<Longrightarrow> \<exists>ws. date_slices_loop s w e acc = Some (Inr ws)"
proof (induction "nat (e - s)" arbitrary: s acc rule: less_induct)
  case less
  show ?case
  proof (cases "s < e")
    case False
    then show ?thesis by (subst date_slices_loop.simps) simp
  next
    case True
    let ?se = "s + w * US_PER_DAY"
    have pos: "0 < w * US_PER_DAY" using assms(1) US_PER_DAY_pos by simp
    have "1 \<le> toordinal ?se" using less(2) pos by (intro toordinal_ge1) simp
    moreover have "toordinal ?se \<le> MAXORDINAL"
      using toordinal_mono[of ?se "e + w * US_PER_DAY"] True assms(2) by simp
    ultimately have add: "dt_add_days s w = Inr ?se"
      by (simp add: dt_add_days_def Let_def)
    let ?c = "if ?se \<le> e then ?se else e"
    have c: "s < ?c" by (rule cursor_increases[OF assms(1) True add])
    then have "nat (e - ?c) < nat (e - s)" using True by auto
    moreover have "0 \<le> ?c" using c less(2) by linarith
    ultimately show ?thesis using less(1)[of ?c] True add
      by (subst date_slices_loop.simps) simp
  qed
qed

lemma date_slices_loop_zero_window:
  assumes "date_slices_loop s w e acc = Some y"
  shows "\<not> (w = 0 \<and> s < e \<and> 1 \<le> toordinal s \<and> toordinal s \<le> MAXORDINAL)"
  by (rule date_slices_loop.raw_induct
        [where P = "\<lambda>s w e acc y. \<not> (w = 0 \<and> s < e \<and> 1 \<le> toordinal s \<and> toordinal s \<le> MAXORDINAL)",
         OF _ assms])
     (auto simp: dt_add_days_def split: if_splits sum.splits)

lemma date_slices_loop_zero_None:
  "s < e \<Longrightarrow> 1 \<le> toordinal s \<Longrightarrow> toordinal s \<le> MAXORDINAL \<Longrightarrow> date_slices_loop s 0 e acc = None"
  using date_slices_loop_zero_window[of s 0 e acc] by (cases "date_slices_loop s 0 e acc") auto

lemma window_count_step:
  fixes d :: int
  assumes "0 < d" "s + d \<le> e"
  shows "nat ((e - s + d - 1) div d) = Suc (nat ((e - (s + d) + d - 1) div d))"
proof -
  have "e - s + d - 1 = (e - (s + d) + d - 1) + d" by simp
  then have "(e - s + d - 1) div d = (e - (s + d) + d - 1) div d + 1"
    using assms(1) by (metis div_add_self2 less_irrefl)
  moreover have "0 \<le> (e - (s + d) + d - 1) div d"
    using assms by (simp add: pos_imp_zdiv_nonneg_iff)
  ultimately show ?thesis by simp
qed

lemma window_count_last:
  fixes d :: int
  assumes "0 < d" "s < e" "e < s + d"
  shows "nat ((e - s + d - 1) div d) = 1"
proof -
  have "d \<le> e - s + d - 1" "e - s + d - 1 < 2 * d" using assms by simp_all
  then have "(e - s + d - 1) div d = 1"
    using assms(1) by (intro int_div_pos_eq[where r = "e - s - 1"]) simp_all
  then show ?thesis by simp
qed

lemma window_count_none:
  fixes d :: int
  assumes "0 < d" "e \<le> s"
  shows "nat ((e - s + d - 1) div d) = 0"
proof -
  have "e - s + d - 1 \<le> d - 1" using assms by simp
  then have "(e - s + d - 1) div d \<le> (d - 1) div d"
    using assms(1) by (intro zdiv_mono1) simp_all
  moreover have "(d - 1) div d = 0" using assms(1) by (intro div_pos_pos_trivial) simp_all
  ultimately show ?thesis by simp
qed


text \<open>
  What the loop computes for a positive window, as long as no date overflows: window
  \<open>i\<close> runs from \<open>start + i * window_in_days\<close> days to that day plus
  \<open>window_in_days\<close> days, for every \<open>i\<close> below the number of windows needed to reach
  the end. The first window starts at the start, consecutive windows are contiguous, and
  every window, the final one included, spans exactly \<open>window_in_days\<close> days.
\<close>

lemma date_slices_loop_closed_form:
  assumes w: "0 < w" and hi: "toordinal (e + w * US_PER_DAY) \<le> MAXORDINAL"
  shows "0 \<le> s \<Longrightarrow>
         date_slices_loop s w e acc =
           Some (Inr (acc @ map (\<lambda>i. [(''dateRange'', VDict (date_slice_of
                                     (s + int i * (w * US_PER_DAY))
                                     (s + int i * (w * US_PER_DAY) + w * US_PER_DAY)))])
                              [0 ..< nat ((e - s + w * US_PER_DAY - 1) div (w * US_PER_DAY))]))"
proof (induction "nat (e - s)" arbitrary: s acc rule: less_induct)
  case less
  let ?d = "w * US_PER_DAY"
  let ?win = "\<lambda>s i. [(''dateRange'', VDict (date_slice_of (s + int i * ?d) (s + int i * ?d + ?d)))]"
  have d: "0 < ?d" using w US_PER_DAY_pos by simp
  show ?case
  proof (cases "s < e")
    case False
    then have "nat ((e - s + ?d - 1) div ?d) = 0" using window_count_none[OF d] by simp
    then show ?thesis using False by (subst date_slices_loop.simps) simp
  next
    case True
    let ?se = "s + ?d"
    have "1 \<le> toordinal ?se" using less(2) d by (intro toordinal_ge1) simp
    moreover have "toordinal ?se \<le> MAXORDINAL"
      using toordinal_mono[of ?se "e + ?d"] True hi by simp
    ultimately have add: "dt_add_days s w = Inr ?se"
      by (simp add: dt_add_days_def Let_def)
    show ?thesis
    proof (cases "?se \<le> e")
      case le: True
      have m: "nat (e - ?se) < nat (e - s)" using True d by simp
      have nn: "0 \<le> ?se" using less(2) d by simp
      have n: "nat ((e - s + ?d - 1) div ?d) = Suc (nat ((e - ?se + ?d - 1) div ?d))"
        by (rule window_count_step[OF d le])
      have shift: "?win ?se i = ?win s (Suc i)" for i
        by (simp add: algebra_simps)
      have "date_slices_loop s w e acc = date_slices_loop ?se w e (acc @ [?win s 0])"
        using True add le by (subst date_slices_loop.simps) simp
      also have "\<dots> = Some (Inr ((acc @ [?win s 0]) @
                   map (?win ?se) [0 ..< nat ((e - ?se + ?d - 1) div ?d)]))"
        by (rule less(1)[OF m nn])
      also have "map (?win ?se) [0 ..< nat ((e - ?se + ?d - 1) div ?d)] =
                 map (\<lambda>i. ?win s (Suc i)) [0 ..< nat ((e - ?se + ?d - 1) div ?d)]"
        using shift by simp
      finally show ?thesis
        unfolding n by (simp add: map_upt_Suc del: upt_Suc)
    next
      case gt: False
      then have n: "nat ((e - s + ?d - 1) div ?d) = 1"
        using window_count_last[OF d True] by simp
      have "date_slices_loop s w e acc = date_slices_loop e w e (acc @ [?win s 0])"
        using True add gt by (subst date_slices_loop.simps) simp
      also have "\<dots> = Some (Inr (acc @ [?win s 0]))"
        by (subst date_slices_loop.simps) simp
      finally show ?thesis unfolding n by simp
    qed
  qed
qed
text \<open>
  C10, for a positive window length: for every start, every end and every
  \<open>window_in_days\<close> greater than 0 the loop terminates. It returns a sequence of windows
  or raises \<^verbatim>\<open>OverflowError\<close>, the cursor strictly increases on every iteration made
  while it is before the end, a sequence of windows is returned whenever the start is
  representable and the end plus one window does not pass the last representable day,
  and \<open>make_date_slices\<close> returns for every parser and clock reading.
\<close>

theorem date_windower_terminates:
  assumes "0 < window_in_days"
  shows "(\<exists>r. date_slices_loop start window_in_days end_dt date_slices = Some r \<and>
              (r = Inl OverflowError \<or> (\<exists>ws. r = Inr ws))) \<and>
         (start < end_dt \<and> dt_add_days start window_in_days = Inr slice_end_date \<longrightarrow>
            start < (if slice_end_date \<le> end_dt then slice_end_date else end_dt)) \<and>
         (0 \<le> start \<and> toordinal (end_dt + window_in_days * US_PER_DAY) \<le> MAXORDINAL \<longrightarrow>
            (\<exists>ws. date_slices_loop start window_in_days end_dt date_slices = Some (Inr ws))) \<and>
         (\<exists>r. make_date_slices parse now start_date window_in_days end_date = Some r)"
proof (intro conjI impI)
  show "\<exists>r. date_slices_loop start window_in_days end_dt date_slices = Some r \<and>
              (r = Inl OverflowError \<or> (\<exists>ws. r = Inr ws))"
    by (rule date_slices_loop_returns[OF assms])
  show "start < (if slice_end_date \<le> end_dt then slice_end_date else end_dt)"
    if "start < end_dt \<and> dt_add_days start window_in_days = Inr slice_end_date"
    using that cursor_increases[OF assms] by blast
  show "\<exists>ws. date_slices_loop start window_in_days end_dt date_slices = Some (Inr ws)"
    if "0 \<le> start \<and> toordinal (end_dt + window_in_days * US_PER_DAY) \<le> MAXORDINAL"
    using that date_slices_loop_in_range[OF assms] by blast
  show "\<exists>r. make_date_slices parse now start_date window_in_days end_date = Some r"
  proof -
    have "\<exists>r. date_slices_loop s window_in_days e [] = Some r" for s e
      using date_slices_loop_returns[OF assms, of s e "[]"] by blast
    then show ?thesis
      by (auto simp: make_date_slices_def split: sum.splits option.splits)
  qed
qed

text \<open>
  The loop from 2021-01-01 to 2021-02-15 with a window of 30 days returns a sequence.
\<close>

theorem date_windower_terminates_witness:
  "(0::int) < 30 \<and>
   (\<exists>ws. date_slices_loop 63745056000000000 30 63748944000000000 [] = Some (Inr ws))"
proof -
  have h: "(0::int) < 30" by simp
  have r: "(0::int) \<le> 63745056000000000 \<and>
           toordinal (63748944000000000 + 30 * US_PER_DAY) \<le> MAXORDINAL"
    by (simp add: toordinal_def US_PER_DAY_def MAXORDINAL_def)
  from date_windower_terminates[OF h, of 63745056000000000 63748944000000000 "[]"] r
  have "\<exists>ws. date_slices_loop 63745056000000000 30 63748944000000000 [] = Some (Inr ws)"
    by blast
  with h show ?thesis by blast
qed

text \<open>
  C10 as stated fails: with a window of 0 days the cursor never moves and the call never
  returns, and near the last representable day a positive window makes the call raise
  \<^verbatim>\<open>OverflowError\<close> instead of returning a sequence.
\<close>

theorem zero_window_never_returns:
  "make_date_slices pdm_parse 0 ''2021-01-01'' 0 (Some ''2021-01-02'') = None \<and>
   make_date_slices pdm_parse 0 ''9999-12-30'' 30 (Some ''9999-12-31'') = Some (Inl OverflowError)"
proof
  have a: "pdm_parse ''2021-01-01'' = Inr 63745056000000000" by code_simp
  have b: "pdm_parse ''2021-01-02'' = Inr 63745142400000000" by code_simp
  have "date_slices_loop 63745056000000000 0 63745142400000000 [] = None"
    by (rule date_slices_loop_zero_None)
       (simp_all add: toordinal_def US_PER_DAY_def MAXORDINAL_def)
  then show "make_date_slices pdm_parse 0 ''2021-01-01'' 0 (Some ''2021-01-02'') = None"
    by (simp add: make_date_slices_def a b)
  show "make_date_slices pdm_parse 0 ''9999-12-30'' 30 (Some ''9999-12-31'') = Some (Inl OverflowError)"
    by code_simp
qed

text \<open>
  C8: when the parsed start is greater than or equal to the parsed end, the result is the
  empty sequence and not an error, for every window length.
\<close>

theorem make_date_slices_empty:
  assumes "parse start_date = Inr start" and "end_date = Some s" and "s \<noteq> []"
    and "parse s = Inr end_dt" and "end_dt \<le> start"
  shows "make_date_slices parse now start_date window_in_days end_date = Some (Inr [])"
  using assms by (simp add: make_date_slices_def date_slices_loop.simps)

text \<open>
  Start 2021-02-15 and end 2021-01-01.
\<close>

theorem make_date_slices_empty_witness:
  "pdm_parse ''2021-02-15'' = Inr 63748944000000000 \<and>
   pdm_parse ''2021-01-01'' = Inr 63745056000000000 \<and>
   (63745056000000000::int) \<le> 63748944000000000 \<and>
   make_date_slices pdm_parse 0 ''2021-02-15'' 30 (Some ''2021-01-01'') = Some (Inr [])"
proof -
  have a: "pdm_parse ''2021-02-15'' = Inr 63748944000000000" by code_simp
  have b: "pdm_parse ''2021-01-01'' = Inr 63745056000000000" by code_simp
  have c: "(63745056000000000::int) \<le> 63748944000000000" by simp
  have "make_date_slices pdm_parse 0 ''2021-02-15'' 30 (Some ''2021-01-01'') = Some (Inr [])"
    using make_date_slices_empty[where parse = pdm_parse and start_date = "''2021-02-15''"
        and end_date = "Some ''2021-01-01''" and s = "''2021-01-01''", OF a _ _ b c]
    by simp
  with a b c show ?thesis by blast
qed

text \<open>
  C2: the call with start date 2021-01-01, a window of 30 days and end date 2021-02-15
  returns two windows. The first runs from 2021-01-01 to 2021-01-31; the second starts
  at 2021-01-31 and its end components are those of 2021-03-02, the cursor plus 30 days,
  not those of the end date 2021-02-15.
\<close>

theorem make_date_slices_example:
  "make_date_slices pdm_parse now ''2021-01-01'' 30 (Some ''2021-02-15'') =
     Some (Inr
       [[(''dateRange'', VDict
            [(''start.day'', VInt 1), (''start.month'', VInt 1), (''start.year'', VInt 2021),
             (''end.day'', VInt 31), (''end.month'', VInt 1), (''end.year'', VInt 2021)])],
        [(''dateRange'', VDict
            [(''start.day'', VInt 31), (''start.month'', VInt 1), (''start.year'', VInt 2021),
             (''end.day'', VInt 2), (''end.month'', VInt 3), (''end.year'', VInt 2021)])]])"
  by code_simp

text \<open>
  C1: the end components of the final window are those of the cursor plus the window
  length, whatever the end date is. With start date 2021-01-01, a window of 7 days and
  end date 2021-01-10 the final window runs from 2021-01-08 to 2021-01-15, while the day,
  month and year of the parsed end date are 10, 1 and 2021.
\<close>

theorem final_window_end_not_clipped:
  "\<exists>start end_dt ws.
     pdm_parse ''2021-01-01'' = Inr start \<and> pdm_parse ''2021-01-10'' = Inr end_dt \<and>
     start < end_dt \<and>
     (dt_day end_dt, dt_month end_dt, dt_year end_dt) = (10, 1, 2021) \<and>
     make_date_slices pdm_parse now ''2021-01-01'' 7 (Some ''2021-01-10'') = Some (Inr ws) \<and>
     length ws = 2 \<and>
     last ws = [(''dateRange'', VDict
            [(''start.day'', VInt 8), (''start.month'', VInt 1), (''start.year'', VInt 2021),
             (''end.day'', VInt 15), (''end.month'', VInt 1), (''end.year'', VInt 2021)])]"
proof -
  have a: "pdm_parse ''2021-01-01'' = Inr 63745056000000000" by code_simp
  have b: "pdm_parse ''2021-01-10'' = Inr 63745833600000000" by code_simp
  have c: "(dt_day 63745833600000000, dt_month 63745833600000000, dt_year 63745833600000000)
             = (10, 1, 2021)" by code_simp
  have d: "make_date_slices pdm_parse now ''2021-01-01'' 7 (Some ''2021-01-10'') =
     Some (Inr
       [[(''dateRange'', VDict
            [(''start.day'', VInt 1), (''start.month'', VInt 1), (''start.year'', VInt 2021),
             (''end.day'', VInt 8), (''end.month'', VInt 1), (''end.year'', VInt 2021)])],
        [(''dateRange'', VDict
            [(''start.day'', VInt 8), (''start.month'', VInt 1), (''start.year'', VInt 2021),
             (''end.day'', VInt 15), (''end.month'', VInt 1), (''end.year'', VInt 2021)])]])"
    by code_simp
  show ?thesis
    apply (rule exI[of _ 63745056000000000], rule exI[of _ 63745833600000000])
    apply (simp add: a b c d)
    done
qed
section \<open>Properties of the Param Flattener\<close>

text \<open>
  C6: for every slice with a \<^verbatim>\<open>dateRange\<close> entry holding the six components and with
  a \<^verbatim>\<open>fields\<close> entry, \<open>update_analytics_params\<close> returns the flat mapping whose seven
  keys carry exactly the corresponding nested values of the slice.
\<close>

theorem update_analytics_params_roundtrip:
  assumes "dict_get stream_slice ''dateRange'' = Some (VDict date_range)"
    and "dict_get date_range ''start.day'' = Some sd"
    and "dict_get date_range ''start.month'' = Some sm"
    and "dict_get date_range ''start.year'' = Some sy"
    and "dict_get date_range ''end.day'' = Some ed"
    and "dict_get date_range ''end.month'' = Some em"
    and "dict_get date_range ''end.year'' = Some ey"
    and "dict_get stream_slice ''fields'' = Some fields"
  shows "update_analytics_params stream_slice =
           Inr [(''dateRange.start.day'', sd),
                (''dateRange.start.month'', sm),
                (''dateRange.start.year'', sy),
                (''dateRange.end.day'', ed),
                (''dateRange.end.month'', em),
                (''dateRange.end.year'', ey),
                (''fields'', fields)]"
  using assms by (simp add: update_analytics_params_def subscript2_def subscript_def)

text \<open>A slice for campaign 7 and the window 2021-01-01 to 2021-01-31.\<close>

theorem update_analytics_params_roundtrip_witness:
  "update_analytics_params
     [(''campaign'', VInt 7),
      (''fields'', VStr ''clicks,pivot''),
      (''dateRange'', VDict
         [(''start.day'', VInt 1), (''start.month'', VInt 1), (''start.year'', VInt 2021),
          (''end.day'', VInt 31), (''end.month'', VInt 1), (''end.year'', VInt 2021)])] =
   Inr [(''dateRange.start.day'', VInt 1),
        (''dateRange.start.month'', VInt 1),
        (''dateRange.start.year'', VInt 2021),
        (''dateRange.end.day'', VInt 31),
        (''dateRange.end.month'', VInt 1),
        (''dateRange.end.year'', VInt 2021),
        (''fields'', VStr ''clicks,pivot'')]"
  using update_analytics_params_roundtrip
    [where date_range =
       "[(''start.day'', VInt 1), (''start.month'', VInt 1), (''start.year'', VInt 2021),
         (''end.day'', VInt 31), (''end.month'', VInt 1), (''end.year'', VInt 2021)]"
     and stream_slice =
       "[(''campaign'', VInt 7),
         (''fields'', VStr ''clicks,pivot''),
         (''dateRange'', VDict
            [(''start.day'', VInt 1), (''start.month'', VInt 1), (''start.year'', VInt 2021),
             (''end.day'', VInt 31), (''end.month'', VInt 1), (''end.year'', VInt 2021)])]"]
  by (simp add: dict_get_def)
section \<open>Properties of the Result Merger\<close>

lemma dict_get_set: "dict_get (dict_set d k v) x = (if x = k then Some v else dict_get d x)"
  by (induction d) (auto simp: dict_get_def)

lemma dict_keys_set:
  "dict_keys (dict_set d k v) = (if k \<in> set (dict_keys d) then dict_keys d else dict_keys d @ [k])"
  by (induction d) (force simp: dict_keys_def)+

lemma dict_get_None_iff: "dict_get d k = None \<longleftrightarrow> k \<notin> set (dict_keys d)"
  by (simp add: dict_get_def dict_keys_def map_of_eq_None_iff)

lemma dict_get_Nil: "dict_get [] x = None"
  by (simp add: dict_get_def)


lemma fold_keys_get:
  "dict_get (fold (\<lambda>k d. case dict_get other k of Some v \<Rightarrow> dict_set d k v | None \<Rightarrow> d) ks d) x =
     (if x \<in> set ks then (case dict_get other x of Some v \<Rightarrow> Some v | None \<Rightarrow> dict_get d x)
      else dict_get d x)"
proof (induction ks arbitrary: d)
  case Nil
  show ?case by simp
next
  case (Cons k ks)
  show ?case
    by (cases "dict_get other k") (auto simp: Cons.IH dict_get_set split: option.splits)
qed

lemma dict_get_update:
  "dict_get (dict_update acc r) x =
     (case dict_get r x of Some v \<Rightarrow> Some v | None \<Rightarrow> dict_get acc x)"
proof (cases "x \<in> set (dict_keys r)")
  case True
  then show ?thesis by (simp add: dict_update_def fold_keys_get)
next
  case False
  then have "dict_get r x = None" by (simp add: dict_get_None_iff)
  then show ?thesis using False by (simp add: dict_update_def fold_keys_get)
qed





















lemma merge_record_Inr:
  assumes "merge_record k (m, s) a = Inr (m', s')"
  shows "\<exists>h. dict_get (s a) k = Some h \<and> hashable h \<and>
             (case dict_get m h of
                Some acc \<Rightarrow> m' = m \<and> s' = s(acc := dict_update (s acc) (s a))
              | None \<Rightarrow> m' = dict_set m h a \<and> s' = s)"
  using assms by (auto simp: merge_record_def split: option.splits if_splits)

lemma merge_record_ok:
  "dict_get (s a) k = Some h \<Longrightarrow> hashable h \<Longrightarrow> \<exists>st. merge_record k (m, s) a = Inr st"
  by (auto simp: merge_record_def split: option.splits)



lemma merge_chunk_append:
  "merge_chunk k st (xs @ ys) =
     (case merge_chunk k st xs of Inl e \<Rightarrow> Inl e | Inr st' \<Rightarrow> merge_chunk k st' ys)"
  by (induction xs arbitrary: st) (auto split: sum.splits)

lemma merge_loop_concat: "merge_loop k st colls = merge_chunk k st (concat colls)"
  by (induction colls arbitrary: st) (auto simp: merge_chunk_append split: sum.splits)






text \<open>
  Every object \<open>merged\<close> refers to carries the merge-key value it is filed under, and an
  in-place update never changes the merge-key value of any object.
\<close>

lemma merge_record_keys:
  assumes J: "\<forall>h a. dict_get m h = Some a \<longrightarrow> dict_get (s a) k = Some h"
    and step: "merge_record k (m, s) key = Inr (m', s')"
  shows "(\<forall>h a. dict_get m' h = Some a \<longrightarrow> dict_get (s' a) k = Some h) \<and>
         (\<forall>a. dict_get (s' a) k = dict_get (s a) k)"
proof -
  from merge_record_Inr[OF step] obtain h where h: "dict_get (s key) k = Some h"
    and eff: "case dict_get m h of
                Some acc \<Rightarrow> m' = m \<and> s' = s(acc := dict_update (s acc) (s key))
              | None \<Rightarrow> m' = dict_set m h key \<and> s' = s"
    by blast
  show ?thesis
  proof (cases "dict_get m h")
    case None
    then show ?thesis using eff J h by (auto simp: dict_get_set)
  next
    case (Some acc)
    then have m': "m' = m" and s': "s' = s(acc := dict_update (s acc) (s key))"
      using eff by simp_all
    have acc: "dict_get (s acc) k = Some h" using J Some by blast
    have new: "dict_get (s' acc) k = Some h" by (simp add: s' dict_get_update h)
    have keep: "dict_get (s' a) k = dict_get (s a) k" for a
      using acc new by (cases "a = acc") (simp_all add: s')
    then show ?thesis using J by (simp add: m')
  qed
qed

lemma merge_chunk_KeyError_iff:
  "\<forall>h a. dict_get m h = Some a \<longrightarrow> dict_get (s a) k = Some h \<Longrightarrow>
   \<forall>a. dict_get (s a) k = dict_get (s0 a) k \<Longrightarrow>
   merge_chunk k (m, s) recs = Inl KeyError \<longleftrightarrow>
     (\<exists>before r after. recs = before @ r # after \<and> dict_get (s0 r) k = None \<and>
        (\<forall>q \<in> set before. \<exists>h. dict_get (s0 q) k = Some h \<and> hashable h))"
  (is "_ \<Longrightarrow> _ \<Longrightarrow> ?L m s recs \<longleftrightarrow> ?R recs")
proof (induction recs arbitrary: m s)
  case Nil
  show ?case by simp
next
  case (Cons a recs)
  have sa: "dict_get (s a) k = dict_get (s0 a) k" using Cons.prems(2) by simp
  show ?case
  proof (cases "dict_get (s0 a) k")
    case None
    then have "?L m s (a # recs)" using sa by (simp add: merge_record_def)
    moreover have "?R (a # recs)"
      using None by (intro exI[of _ "[]"] exI[of _ a] exI[of _ recs]) simp
    ultimately show ?thesis by simp
  next
    case (Some h)
    have split: "?R (a # recs) \<longleftrightarrow> hashable h \<and> ?R recs"
    proof
      assume "?R (a # recs)"
      then obtain before r after where d: "a # recs = before @ r # after"
        and n: "dict_get (s0 r) k = None"
        and b: "\<forall>q \<in> set before. \<exists>h. dict_get (s0 q) k = Some h \<and> hashable h" by blast
      from d n Some obtain bs where bs: "before = a # bs" "recs = bs @ r # after"
        by (cases before) auto
      then have "hashable h" using b Some by auto
      moreover have "?R recs" using bs n b by auto
      ultimately show "hashable h \<and> ?R recs" ..
    next
      assume "hashable h \<and> ?R recs"
      then obtain before r after where hh: "hashable h" and d: "recs = before @ r # after"
        and n: "dict_get (s0 r) k = None"
        and b: "\<forall>q \<in> set before. \<exists>h. dict_get (s0 q) k = Some h \<and> hashable h" by blast
      show "?R (a # recs)"
        using d n b hh Some
        by (intro exI[of _ "a # before"] exI[of _ r] exI[of _ after]) simp
    qed
    show ?thesis
    proof (cases "hashable h")
      case False
      then have "merge_chunk k (m, s) (a # recs) = Inl TypeError"
        using Some sa by (simp add: merge_record_def)
      then show ?thesis using split False by simp
    next
      case True
      obtain m1 s1 where m1: "merge_record k (m, s) a = Inr (m1, s1)"
        using merge_record_ok[of s a k h m] Some sa True by (metis surj_pair)
      from merge_record_keys[OF Cons.prems(1) m1]
      have J1: "\<forall>h a. dict_get m1 h = Some a \<longrightarrow> dict_get (s1 a) k = Some h"
        and K1: "\<forall>a. dict_get (s1 a) k = dict_get (s a) k"
        by blast+
      have P1: "\<forall>a. dict_get (s1 a) k = dict_get (s0 a) k"
        using K1 Cons.prems(2) by simp
      have "?L m s (a # recs) \<longleftrightarrow> ?L m1 s1 recs" using m1 by simp
      then show ?thesis using Cons.IH[OF J1 P1] split True by simp
    qed
  qed
qed

lemma merge_chunk_total:
  "\<forall>h a. dict_get m h = Some a \<longrightarrow> dict_get (s a) k = Some h \<Longrightarrow>
   \<forall>a. dict_get (s a) k = dict_get (s0 a) k \<Longrightarrow>
   \<forall>r \<in> set recs. \<exists>h. dict_get (s0 r) k = Some h \<and> hashable h \<Longrightarrow>
   \<exists>st. merge_chunk k (m, s) recs = Inr st"
proof (induction recs arbitrary: m s)
  case Nil
  show ?case by simp
next
  case (Cons a recs)
  from Cons.prems(2,3) obtain h where "dict_get (s a) k = Some h" "hashable h" by auto
  then obtain m1 s1 where m1: "merge_record k (m, s) a = Inr (m1, s1)"
    using merge_record_ok[of s a k h m] by (metis surj_pair)
  from merge_record_keys[OF Cons.prems(1) m1]
  have J1: "\<forall>h a. dict_get m1 h = Some a \<longrightarrow> dict_get (s1 a) k = Some h"
    and K1: "\<forall>a. dict_get (s1 a) k = dict_get (s a) k"
    by blast+
  have P1: "\<forall>a. dict_get (s1 a) k = dict_get (s0 a) k"
    using K1 Cons.prems(2) by simp
  from Cons.IH[OF J1 P1] Cons.prems(3) show ?case using m1 by simp
qed

lemma merge_chunks_total:
  assumes "\<forall>r \<in> set (concat chunked_result). \<exists>h. dict_get (store r) k = Some h \<and> hashable h"
  shows "\<exists>out store'. merge_chunks store chunked_result k = Inr (out, store')"
proof -
  have "\<exists>st. merge_chunk k ([], store) (concat chunked_result) = Inr st"
    using assms by (intro merge_chunk_total[where ?s0.0 = store]) (simp_all add: dict_get_Nil)
  then show ?thesis
    by (auto simp: merge_chunks_def merge_loop_concat)
qed





text \<open>
  C9, with the order of processing made explicit: \<open>merge_chunks\<close> raises
  \<^verbatim>\<open>KeyError\<close> exactly when some record of the flattened input lacks the merge key and
  every record before it carries a hashable merge-key value. When every record contains
  the merge key no \<^verbatim>\<open>KeyError\<close> is raised, and when every record carries a hashable
  merge-key value the call returns a result. The contents are those the records have at
  the call: the updates in place never change the merge-key value of a record.
\<close>

theorem merge_chunks_KeyError_iff:
  "(merge_chunks store chunked_result merge_by_key = Inl KeyError \<longleftrightarrow>
      (\<exists>before r after.
         concat chunked_result = before @ r # after \<and>
         dict_get (store r) merge_by_key = None \<and>
         (\<forall>q \<in> set before. \<exists>h. dict_get (store q) merge_by_key = Some h \<and> hashable h))) \<and>
   ((\<forall>r \<in> set (concat chunked_result). dict_get (store r) merge_by_key \<noteq> None) \<longrightarrow>
      merge_chunks store chunked_result merge_by_key \<noteq> Inl KeyError) \<and>
   ((\<forall>r \<in> set (concat chunked_result).
        \<exists>h. dict_get (store r) merge_by_key = Some h \<and> hashable h) \<longrightarrow>
      (\<exists>out. merge_chunks store chunked_result merge_by_key = Inr out))"
proof -
  have eq: "merge_chunks store chunked_result merge_by_key = Inl KeyError \<longleftrightarrow>
              merge_chunk merge_by_key ([], store) (concat chunked_result) = Inl KeyError"
    by (simp add: merge_chunks_def merge_loop_concat split: sum.splits prod.splits)
  have iff: "merge_chunks store chunked_result merge_by_key = Inl KeyError \<longleftrightarrow>
      (\<exists>before r after.
         concat chunked_result = before @ r # after \<and>
         dict_get (store r) merge_by_key = None \<and>
         (\<forall>q \<in> set before. \<exists>h. dict_get (store q) merge_by_key = Some h \<and> hashable h))"
    unfolding eq by (rule merge_chunk_KeyError_iff) (simp_all add: dict_get_Nil)
  have none: "merge_chunks store chunked_result merge_by_key \<noteq> Inl KeyError"
    if "\<forall>r \<in> set (concat chunked_result). dict_get (store r) merge_by_key \<noteq> None"
  proof
    assume "merge_chunks store chunked_result merge_by_key = Inl KeyError"
    then obtain before r after where
      "concat chunked_result = before @ r # after" "dict_get (store r) merge_by_key = None"
      using iff by blast
    then show False using that by auto
  qed
  have ok: "\<exists>out. merge_chunks store chunked_result merge_by_key = Inr out"
    if "\<forall>r \<in> set (concat chunked_result).
          \<exists>h. dict_get (store r) merge_by_key = Some h \<and> hashable h"
    using merge_chunks_total[OF that] by blast
  show ?thesis using iff none ok by blast
qed

text \<open>
  A second collection whose record has no \<^verbatim>\<open>id\<close> raises \<^verbatim>\<open>KeyError\<close>; with the key
  present in every record it does not.
\<close>

theorem merge_chunks_KeyError_iff_witness:
  "merge_chunks ((\<lambda>a::addr. [])(0 := [(''id'', VInt 1), (''a'', VInt 10)], 1 := [(''a'', VInt 20)]))
     [[0], [1]] ''id'' = Inl KeyError \<and>
   merge_chunks ((\<lambda>a::addr. [])(0 := [(''id'', VInt 1), (''a'', VInt 10)], 1 := [(''id'', VInt 1)]))
     [[0], [1]] ''id'' \<noteq> Inl KeyError"
proof
  let ?S = "(\<lambda>a::addr. [])(0 := [(''id'', VInt 1), (''a'', VInt 10)], 1 := [(''a'', VInt 20)])"
  let ?X = "[[0], [1::nat]]"
  have "concat ?X = [0] @ 1 # [] \<and> dict_get (?S 1) ''id'' = None \<and>
        (\<forall>q \<in> set [0]. \<exists>h. dict_get (?S q) ''id'' = Some h \<and> hashable h)"
    by (simp add: dict_get_def)
  then have "\<exists>before r after. concat ?X = before @ r # after \<and> dict_get (?S r) ''id'' = None \<and>
        (\<forall>q \<in> set before. \<exists>h. dict_get (?S q) ''id'' = Some h \<and> hashable h)"
    by blast
  then show "merge_chunks ?S ?X ''id'' = Inl KeyError"
    using merge_chunks_KeyError_iff[of ?S ?X "''id''"] by blast
next
  let ?T = "(\<lambda>a::addr. [])(0 := [(''id'', VInt 1), (''a'', VInt 10)], 1 := [(''id'', VInt 1)])"
  let ?Y = "[[0], [1::nat]]"
  have "\<forall>r \<in> set (concat ?Y). dict_get (?T r) ''id'' \<noteq> None" by (simp add: dict_get_def)
  then show "merge_chunks ?T ?Y ''id'' \<noteq> Inl KeyError"
    using merge_chunks_KeyError_iff[of ?T ?Y "''id''"] by blast
qed

text \<open>
  C9 as stated fails: a record lacks the merge key, but the record before it carries a
  list as its merge-key value, and the call raises \<^verbatim>\<open>TypeError\<close> at that record, not
  \<^verbatim>\<open>KeyError\<close>.
\<close>

theorem unhashable_key_masks_KeyError:
  "merge_chunks
     ((\<lambda>a::addr. [])(0 := [(''id'', VList [VStr ''x''])], 1 := [(''a'', VInt 1)]))
     [[0, 1]] ''id'' = Inl TypeError \<and>
   dict_get (((\<lambda>a::addr. [])(0 := [(''id'', VList [VStr ''x''])], 1 := [(''a'', VInt 1)])) 1)
     ''id'' = None"
proof
  let ?S = "(\<lambda>a::addr. [])(0 := [(''id'', VList [VStr ''x''])], 1 := [(''a'', VInt 1)])"
  have "map_sum id read_result (merge_chunks ?S [[0, 1]] ''id'') = Inl TypeError"
    by code_simp
  then show "merge_chunks ?S [[0, 1]] ''id'' = Inl TypeError"
    by (cases "merge_chunks ?S [[0, 1]] ''id''") simp_all
  show "dict_get (?S 1) ''id'' = None" by (simp add: dict_get_def)
qed
section \<open>Properties of the Slice Builder\<close>

lemma dict_set_twice: "dict_set (dict_set d k a) k b = dict_set d k b"
  by (induction d) auto

lemma dict_set_swap:
  "k1 \<noteq> k2 \<Longrightarrow>
   dict_set (dict_set (dict_set d k1 a) k2 b) k1 c = dict_set (dict_set d k1 c) k2 b"
  by (induction d) (auto simp: dict_set_twice)

lemma dict_update_single: "dict_update d [(k, v)] = dict_set d k v"
  by (simp add: dict_update_def dict_keys_def dict_get_def)

lemma date_slices_loop_all:
  assumes run: "date_slices_loop s w e acc = Some y"
    and new: "\<And>a b. P [(''dateRange'', VDict (date_slice_of a b))]"
  shows "list_all P acc \<longrightarrow> (\<forall>out. y = Inr out \<longrightarrow> list_all P out)"
  by (rule date_slices_loop.raw_induct
        [where P = "\<lambda>s w e acc y. list_all P acc \<longrightarrow> (\<forall>out. y = Inr out \<longrightarrow> list_all P out)",
         OF _ run])
     (auto simp: new split: if_splits sum.splits)

lemma make_date_slices_loop:
  assumes "make_date_slices parse now start_date w end_date = Some (Inr windows)"
  shows "\<exists>s e. date_slices_loop s w e [] = Some (Inr windows)"
proof (cases "parse start_date")
  case (Inl err)
  then show ?thesis using assms by (simp add: make_date_slices_def)
next
  case (Inr s)
  let ?e = "case end_date of None \<Rightarrow> Inr now | Some x \<Rightarrow> if x \<noteq> [] then parse x else Inr now"
  show ?thesis
  proof (cases ?e)
    case (Inl err)
    then show ?thesis using assms Inr by (simp add: make_date_slices_def)
  next
    case e: (Inr e)
    then have "date_slices_loop s w e [] = Some (Inr windows)"
      using assms Inr by (simp add: make_date_slices_def)
    then show ?thesis by blast
  qed
qed

lemma make_date_slices_windows:
  assumes "make_date_slices parse now start_date w end_date = Some (Inr windows)"
  shows "\<forall>x \<in> set windows. \<exists>v. x = [(''dateRange'', v)]"
proof -
  from make_date_slices_loop[OF assms] obtain s e where
    run: "date_slices_loop s w e [] = Some (Inr windows)" by blast
  have "list_all (\<lambda>x. \<exists>v. x = [(''dateRange'', v)]) windows"
    using date_slices_loop_all[OF run, of "\<lambda>x. \<exists>v. x = [(''dateRange'', v)]"] by simp
  then show ?thesis by (simp add: list_all_iff)
qed

lemma add_date_slices_fresh:
  assumes "\<forall>x \<in> set ws. \<exists>v. x = [(''dateRange'', v)]"
    and "B = T \<or> (\<exists>v. B = dict_set T ''dateRange'' v)"
  shows "\<exists>B'. add_date_slices B acc ws = (B', acc @ map (dict_update T) ws) \<and>
              (B' = T \<or> (\<exists>v. B' = dict_set T ''dateRange'' v))"
  using assms
proof (induction ws arbitrary: B acc)
  case Nil
  then show ?case by simp
next
  case (Cons w ws)
  from Cons.prems(1) obtain v where w: "w = [(''dateRange'', v)]" by auto
  have step: "dict_update B w = dict_set T ''dateRange'' v"
    using Cons.prems(2) by (auto simp: w dict_update_single dict_set_twice)
  have tw: "dict_update T w = dict_set T ''dateRange'' v" by (simp add: w dict_update_single)
  have "\<exists>B'. add_date_slices (dict_set T ''dateRange'' v) (acc @ [dict_set T ''dateRange'' v]) ws =
               (B', (acc @ [dict_set T ''dateRange'' v]) @ map (dict_update T) ws) \<and>
              (B' = T \<or> (\<exists>v. B' = dict_set T ''dateRange'' v))"
    using Cons.prems(1) by (intro Cons.IH) auto
  then show ?case by (simp add: step tw Let_def)
qed

lemma analytics_slices_loop_fresh:
  "\<forall>j < length chunks.
     make_date_slices parse (clock (i + j)) start_date WINDOW_IN_DAYS None =
       Some (Inr (ws (i + j))) \<Longrightarrow>
   \<forall>F V. dict_set (dict_set S ''fields'' F) ''dateRange'' V =
          dict_set (dict_set base ''fields'' F) ''dateRange'' V \<Longrightarrow>
   analytics_slices_loop parse clock start_date i S acc chunks =
     Some (Inr (acc @ concat (map (\<lambda>j. map (fresh_slice base (chunks ! j)) (ws (i + j)))
                               [0 ..< length chunks])))"
proof (induction chunks arbitrary: i S acc)
  case Nil
  then show ?case by simp
next
  case (Cons c chunks)
  let ?F = "VStr (py_join '','' c)"
  let ?T = "dict_set S ''fields'' ?F"
  let ?ws = "ws i"
  have mk: "make_date_slices parse (clock i) start_date WINDOW_IN_DAYS None = Some (Inr ?ws)"
    using Cons.prems(1) by force
  have win: "\<forall>x \<in> set ?ws. \<exists>v. x = [(''dateRange'', v)]"
    by (rule make_date_slices_windows[OF mk])
  obtain B' where inner: "add_date_slices ?T acc ?ws = (B', acc @ map (dict_update ?T) ?ws)"
    and B': "B' = ?T \<or> (\<exists>v. B' = dict_set ?T ''dateRange'' v)"
    using add_date_slices_fresh[OF win, of ?T ?T acc] by blast
  have fresh: "map (dict_update ?T) ?ws = map (fresh_slice base c) ?ws"
  proof (intro map_cong refl)
    fix w assume "w \<in> set ?ws"
    then obtain v where w: "w = [(''dateRange'', v)]" using win by auto
    show "dict_update ?T w = fresh_slice base c w"
      using Cons.prems(2) by (simp add: w fresh_slice_def dict_update_single)
  qed
  have Q: "\<forall>F V. dict_set (dict_set B' ''fields'' F) ''dateRange'' V =
                dict_set (dict_set base ''fields'' F) ''dateRange'' V"
  proof (intro allI)
    fix F V
    from B' show "dict_set (dict_set B' ''fields'' F) ''dateRange'' V =
                dict_set (dict_set base ''fields'' F) ''dateRange'' V"
    proof
      assume "B' = ?T"
      then show ?thesis using Cons.prems(2) by (simp add: dict_set_twice)
    next
      assume "\<exists>v. B' = dict_set ?T ''dateRange'' v"
      then obtain v where "B' = dict_set ?T ''dateRange'' v" by blast
      then have "dict_set B' ''fields'' F = dict_set (dict_set S ''fields'' F) ''dateRange'' v"
        by (simp add: dict_set_swap)
      then show ?thesis using Cons.prems(2) by (simp add: dict_set_twice)
    qed
  qed
  have rest: "\<forall>j < length chunks.
           make_date_slices parse (clock (Suc i + j)) start_date WINDOW_IN_DAYS None =
             Some (Inr (ws (Suc i + j)))"
  proof (intro allI impI)
    fix j assume "j < length chunks"
    then have "Suc j < length (c # chunks)" by simp
    from Cons.prems(1)[rule_format, OF this] show
      "make_date_slices parse (clock (Suc i + j)) start_date WINDOW_IN_DAYS None =
         Some (Inr (ws (Suc i + j)))"
      by simp
  qed
  have "analytics_slices_loop parse clock start_date (Suc i) B'
          (acc @ map (fresh_slice base c) ?ws) chunks =
          Some (Inr ((acc @ map (fresh_slice base c) ?ws) @
                     concat (map (\<lambda>j. map (fresh_slice base (chunks ! j)) (ws (Suc i + j)))
                               [0 ..< length chunks])))"
    by (rule Cons.IH[OF rest Q])
  then show ?case
    by (simp add: mk inner fresh Let_def map_upt_Suc del: upt_Suc)
qed

lemma concat_same_windows:
  "concat (map (\<lambda>j. map (g (chunks ! j)) ws) [0 ..< length chunks]) =
   concat (map (\<lambda>c. map (g c) ws) chunks)"
proof -
  have "map (\<lambda>j. map (g (chunks ! j)) ws) [0 ..< length chunks] =
        map (\<lambda>c. map (g c) ws) (map (\<lambda>j. chunks ! j) [0 ..< length chunks])"
    by (simp add: comp_def)
  then show ?thesis by (simp add: map_nth)
qed

lemma length_concat_product:
  "length (concat (map (\<lambda>c. map (g c) ws) chunks)) = length chunks * length ws"
  by (induction chunks) simp_all

lemma chunk_count:
  assumes "0 < M"
  shows "\<exists>chunks. chunk_analytics_fields C M = Inr chunks \<and>
                  length chunks = (length C + nat M - 1) div nat M"
  using raw_chunks_closed[OF assms, of C] by (simp add: chunk_analytics_fields_def)

lemma length_ANALYTICS_FIELDS_V2: "length ANALYTICS_FIELDS_V2 = 67"
  by code_simp

text \<open>The joined field list and the key order of a slice, on a small chunk.\<close>

lemma py_join_example: "py_join '','' [''clicks'', ''pivot'', ''likes''] = ''clicks,pivot,likes''"
  by simp

lemma fresh_slice_example:
  "fresh_slice [(''campaign'', VInt 7)] [''clicks'', ''pivot'']
     [(''dateRange'', VDict [(''start.day'', VInt 1)])] =
   [(''campaign'', VInt 7), (''fields'', VStr ''clicks,pivot''),
    (''dateRange'', VDict [(''start.day'', VInt 1)])]"
  by code_simp

text \<open>
  C7, with the clock made explicit: \<open>make_date_slices\<close> is called once for every field
  chunk and reads the clock at each call. For a single outer entity whose base slice
  \<open>make_slice\<close> returns, with \<open>chunks\<close> the field chunks and \<open>windows i\<close> the date windows
  the call made for chunk \<open>i\<close> returns, \<open>make_analytics_slices\<close> returns one slice for
  every pair of a chunk and a window of that chunk's call, in outer-loop-over-chunks,
  inner-loop-over-windows order. The number of slices is the sum over the chunks of the
  number of windows of their calls; when every call returns the same windows it is the
  number of chunks times the number of windows.
\<close>

theorem make_analytics_slices_count:
  assumes "make_slice records key_value_map = Inr base_slice"
    and "chunk_analytics_fields ANALYTICS_FIELDS_V2 FIELDS_CHUNK_SIZE = Inr chunks"
    and "\<forall>i < length chunks.
           make_date_slices parse (clock i) start_date WINDOW_IN_DAYS None =
             Some (Inr (windows i))"
  shows "\<exists>slices.
           make_analytics_slices make_slice parse clock records key_value_map start_date =
             Some (Inr slices) \<and>
           slices = concat (map (\<lambda>i. map (\<lambda>date_slice.
                                      fresh_slice base_slice (chunks ! i) date_slice) (windows i))
                              [0 ..< length chunks]) \<and>
           length slices = sum_list (map (\<lambda>i. length (windows i)) [0 ..< length chunks]) \<and>
           ((\<forall>i < length chunks. windows i = same_windows) \<longrightarrow>
              length slices = length chunks * length same_windows \<and>
              slices = concat (map (\<lambda>fields_set.
                          map (\<lambda>date_slice. fresh_slice base_slice fields_set date_slice)
                            same_windows)
                        chunks))"
proof -
  let ?slices = "concat (map (\<lambda>i. map (fresh_slice base_slice (chunks ! i)) (windows i))
                              [0 ..< length chunks])"
  have "analytics_slices_loop parse clock start_date 0 base_slice [] chunks =
          Some (Inr ([] @ concat (map (\<lambda>j. map (fresh_slice base_slice (chunks ! j)) (windows (0 + j)))
                               [0 ..< length chunks])))"
    using assms(3) by (intro analytics_slices_loop_fresh) simp_all
  then have run: "make_analytics_slices make_slice parse clock records key_value_map start_date =
             Some (Inr ?slices)"
    using assms(1,2) by (simp add: make_analytics_slices_def)
  have len: "length ?slices = sum_list (map (\<lambda>i. length (windows i)) [0 ..< length chunks])"
    by (simp add: length_concat comp_def)
  have same: "length ?slices = length chunks * length same_windows \<and>
              ?slices = concat (map (\<lambda>c. map (fresh_slice base_slice c) same_windows) chunks)"
    if "\<forall>i < length chunks. windows i = same_windows"
  proof -
    have e: "map (\<lambda>i. map (fresh_slice base_slice (chunks ! i)) (windows i)) [0 ..< length chunks] =
          map (\<lambda>i. map (fresh_slice base_slice (chunks ! i)) same_windows) [0 ..< length chunks]"
      using that by (intro map_cong refl) simp
    have "?slices = concat (map (\<lambda>c. map (fresh_slice base_slice c) same_windows) chunks)"
      unfolding e by (rule concat_same_windows)
    then show ?thesis by (simp only: length_concat_product simp_thms)
  qed
  show ?thesis using run len same by blast
qed

text \<open>
  The default catalog gives 4 chunks; with start date 2021-01-01 and the clock at
  2021-02-15 at every call there are 2 windows, hence 8 slices.
\<close>

theorem make_analytics_slices_count_witness:
  "\<exists>slices.
     make_analytics_slices (\<lambda>(records::unit) (key_value_map::unit). Inr [(''campaign'', VInt 7)])
       pdm_parse (\<lambda>i. 63748944000000000) () () ''2021-01-01'' = Some (Inr slices) \<and>
     length slices = 8"
proof -
  obtain chunks where c: "chunk_analytics_fields ANALYTICS_FIELDS_V2 FIELDS_CHUNK_SIZE = Inr chunks"
    and n: "length chunks = (length ANALYTICS_FIELDS_V2 + nat FIELDS_CHUNK_SIZE - 1) div nat FIELDS_CHUNK_SIZE"
    using chunk_count[of FIELDS_CHUNK_SIZE ANALYTICS_FIELDS_V2] by (auto simp: FIELDS_CHUNK_SIZE_def)
  have n4: "length chunks = 4"
    unfolding n by (simp add: length_ANALYTICS_FIELDS_V2 FIELDS_CHUNK_SIZE_def)
  let ?ws = "[[(''dateRange'', VDict
            [(''start.day'', VInt 1), (''start.month'', VInt 1), (''start.year'', VInt 2021),
             (''end.day'', VInt 31), (''end.month'', VInt 1), (''end.year'', VInt 2021)])],
        [(''dateRange'', VDict
            [(''start.day'', VInt 31), (''start.month'', VInt 1), (''start.year'', VInt 2021),
             (''end.day'', VInt 2), (''end.month'', VInt 3), (''end.year'', VInt 2021)])]]"
  have w: "make_date_slices pdm_parse 63748944000000000 ''2021-01-01'' WINDOW_IN_DAYS None =
             Some (Inr ?ws)"
    by code_simp
  have h: "\<forall>i < length chunks.
      make_date_slices pdm_parse ((\<lambda>i. 63748944000000000) i) ''2021-01-01'' WINDOW_IN_DAYS None =
        Some (Inr ((\<lambda>i. ?ws) i))"
    using w by simp
  from make_analytics_slices_count
    [where make_slice = "\<lambda>(records::unit) (key_value_map::unit). Inr [(''campaign'', VInt 7)]"
       and records = "()" and key_value_map = "()" and windows = "\<lambda>i. ?ws"
       and same_windows = ?ws, OF refl c h]
  show ?thesis by (auto simp: n4)
qed

text \<open>
  C7 as stated fails when the clock passes a window boundary between two calls. With
  start date 2021-01-01, the first call made one microsecond before 2021-01-31T00:00 and
  the later calls one microsecond after it, the 4 chunks get 1, 2, 2 and 2 windows:
  7 slices, which is neither 4 times 1 nor 4 times 2.
\<close>

theorem clock_crossing_window_boundary:
  "map_option (map_sum id length)
     (make_analytics_slices (\<lambda>(records::unit) (key_value_map::unit). Inr [(''campaign'', VInt 7)])
        pdm_parse (\<lambda>i. if i = 0 then 63747647999999999 else 63747648000000001) () ()
        ''2021-01-01'') = Some (Inr 7) \<and>
   map_sum id length (chunk_analytics_fields ANALYTICS_FIELDS_V2 FIELDS_CHUNK_SIZE) = Inr 4 \<and>
   map_option (map_sum id length)
     (make_date_slices pdm_parse 63747647999999999 ''2021-01-01'' WINDOW_IN_DAYS None) =
     Some (Inr 1) \<and>
   map_option (map_sum id length)
     (make_date_slices pdm_parse 63747648000000001 ''2021-01-01'' WINDOW_IN_DAYS None) =
     Some (Inr 2)"
  by code_simp

end
